theory Spec2Isabelle
  imports Main "HOL-Library.Sublist"
begin

section \<open>Strings and the functions of the package \<open>strings\<close> that the program calls\<close>

text \<open>
  A Go string is a sequence of bytes and \<open>len\<close> counts bytes, so a string is a
  \<^typ>\<open>string\<close> (a list of 8-bit characters) and \<open>len\<close> is the list length as an
  \<^typ>\<open>int\<close>. Lengths stay far below \<open>2^63\<close>, so the sums the program forms do
  not wrap and are written over the unbounded integers.
\<close>

definition len :: "string \<Rightarrow> int" where
  "len s = int (length s)"

text \<open>
  \<open>unicode.IsSpace\<close> on the ASCII range: tab, line feed, vertical tab, form feed,
  carriage return and space. Go also counts the code points U+0085, U+00A0 and the
  Unicode space separators, which take several bytes in UTF-8; the model treats
  those bytes as ordinary characters, so it follows the program on text whose white
  space is ASCII.
\<close>

definition isSpace :: "char \<Rightarrow> bool" where
  "isSpace c = (c = CHR 0x09 \<or> c = CHR 0x0A \<or> c = CHR 0x0B \<or> c = CHR 0x0C
                \<or> c = CHR 0x0D \<or> c = CHR '' '')"

text \<open>\<open>strings.TrimSpace\<close>: the string without its leading and trailing white space.\<close>

definition TrimSpace :: "string \<Rightarrow> string" where
  "TrimSpace s = rev (dropWhile isSpace (rev (dropWhile isSpace s)))"

text \<open>
  \<open>strings.Fields\<close>: the maximal runs of characters that are not white space, in
  order. \<open>fieldsFrom cur s\<close> scans \<open>s\<close> with the word under construction in \<open>cur\<close>.
\<close>

fun fieldsFrom :: "string \<Rightarrow> string \<Rightarrow> string list" where
  "fieldsFrom cur [] = (if cur = [] then [] else [cur])"
| "fieldsFrom cur (c # cs) =
     (if isSpace c then (if cur = [] then fieldsFrom [] cs else cur # fieldsFrom [] cs)
      else fieldsFrom (cur @ [c]) cs)"

definition Fields :: "string \<Rightarrow> string list" where
  "Fields s = fieldsFrom [] s"

text \<open>
  \<open>strings.ReplaceAll s old new\<close>: every non-overlapping occurrence of \<open>old\<close>,
  found from the left, is replaced by \<open>new\<close>. The program only passes the one-character
  patterns \<open>"."\<close>, \<open>"?"\<close> and \<open>"!"\<close>; for the empty pattern (where Go inserts \<open>new\<close>
  around every code point) the model leaves \<open>s\<close> unchanged.
\<close>

function ReplaceAll :: "string \<Rightarrow> string \<Rightarrow> string \<Rightarrow> string" where
  "ReplaceAll [] old new = []"
| "ReplaceAll (c # cs) old new =
     (if old \<noteq> [] \<and> take (length old) (c # cs) = old
      then new @ ReplaceAll (drop (length old) (c # cs)) old new
      else c # ReplaceAll cs old new)"
  by pat_completeness auto
termination
  by (relation "measure (\<lambda>(s, old, new). length s)") auto

text \<open>
  \<open>strings.Split s sep\<close> for a non-empty separator: the pieces of \<open>s\<close> between the
  non-overlapping occurrences of \<open>sep\<close>, found from the left; a string without the
  separator is returned as the single piece. \<open>splitFrom cur s sep\<close> scans \<open>s\<close> with
  the piece under construction in \<open>cur\<close>.
\<close>

function splitFrom :: "string \<Rightarrow> string \<Rightarrow> string \<Rightarrow> string list" where
  "splitFrom cur [] sep = [cur]"
| "splitFrom cur (c # cs) sep =
     (if sep \<noteq> [] \<and> take (length sep) (c # cs) = sep
      then cur # splitFrom [] (drop (length sep) (c # cs)) sep
      else splitFrom (cur @ [c]) cs sep)"
  by pat_completeness auto
termination
  by (relation "measure (\<lambda>(cur, s, sep). length s)") auto

definition Split :: "string \<Rightarrow> string \<Rightarrow> string list" where
  "Split s sep = splitFrom [] s sep"

section \<open>The sentence splitter\<close>

text \<open>
  \<open>splitIntoSentences\<close> puts the marker \<open>|SEP|\<close> after every \<open>.\<close>, then after every
  \<open>?\<close>, then after every \<open>!\<close>, splits the result at the marker and trims each part.
\<close>

definition separators :: "string list" where
  "separators = [''.'', ''?'', ''!'']"

definition markSeparators :: "string \<Rightarrow> string" where
  "markSeparators text = foldl (\<lambda>replacerStr sep. ReplaceAll replacerStr sep (sep @ ''|SEP|'')) text separators"

definition splitIntoSentences :: "string \<Rightarrow> string list" where
  "splitIntoSentences text = map TrimSpace (Split (markSeparators text) ''|SEP|'')"

section \<open>The chunk builder\<close>

text \<open>
  The state of both loops of \<open>splitTextIntoChunks\<close> is the list of chunks emitted so
  far and the contents of a \<open>strings.Builder\<close>.

  \<open>packWord\<close> is one pass of the inner loop over the words of an oversized sentence,
  with \<open>partialSentence\<close> as the builder.
\<close>

definition packWord :: "int \<Rightarrow> string list \<times> string \<Rightarrow> string \<Rightarrow> string list \<times> string" where
  "packWord maxSize st word =
     (let (chunks, partialSentence) = st;
          (chunks, partialSentence) =
             (if len partialSentence + len word + 1 > maxSize
              then (if len partialSentence > 0 then (chunks @ [partialSentence], [])
                    else (chunks, partialSentence))
              else (chunks, partialSentence));
          partialSentence =
             (if len partialSentence > 0 then partialSentence @ '' '' else partialSentence)
      in (chunks, partialSentence @ word))"

text \<open>
  \<open>addSentence\<close> is one pass of the outer loop, with \<open>currentChunk\<close> as the builder:
  an empty sentence is skipped, an oversized one flushes the builder and is packed
  word by word, any other one is appended to the builder, which is flushed first
  when the sentence and a separating space would not fit.
\<close>

definition addSentence :: "int \<Rightarrow> string list \<times> string \<Rightarrow> string \<Rightarrow> string list \<times> string" where
  "addSentence maxSize st sentence0 =
     (let (chunks, currentChunk) = st;
          sentence = TrimSpace sentence0
      in if sentence = [] then (chunks, currentChunk)
         else if len sentence > maxSize then
           (let (chunks, currentChunk) =
                  (if len currentChunk > 0 then (chunks @ [currentChunk], [])
                   else (chunks, currentChunk));
                words = Fields sentence;
                (chunks, partialSentence) = foldl (packWord maxSize) (chunks, []) words;
                chunks = (if len partialSentence > 0 then chunks @ [partialSentence] else chunks)
            in (chunks, currentChunk))
         else
           (let (chunks, currentChunk) =
                  (if len currentChunk + len sentence + 1 > maxSize
                   then (chunks @ [currentChunk], [])
                   else (chunks, currentChunk));
                currentChunk =
                  (if len currentChunk > 0 then currentChunk @ '' '' else currentChunk)
            in (chunks, currentChunk @ sentence)))"

definition splitTextIntoChunks :: "string \<Rightarrow> int \<Rightarrow> string list" where
  "splitTextIntoChunks text maxSize =
     (let sentences = splitIntoSentences text;
          (chunks, currentChunk) = foldl (addSentence maxSize) ([], []) sentences
      in if len currentChunk > 0 then chunks @ [currentChunk] else chunks)"

section \<open>Notions used to state the properties\<close>

text \<open>
  The characters of a string that are not white space, in order: what the chunks are
  compared with the text on.
\<close>

definition nonSpace :: "string \<Rightarrow> string" where
  "nonSpace s = filter (\<lambda>c. \<not> isSpace c) s"

text \<open>
  The chunks put back into one text with a space between them, as
  \<open>strings.Join(chunks, " ")\<close> does. The program never does this; the property of
  repeated splitting speaks of it.
\<close>

fun joinSpace :: "string list \<Rightarrow> string" where
  "joinSpace [] = []"
| "joinSpace [x] = x"
| "joinSpace (x # y # ys) = x @ '' '' @ joinSpace (y # ys)"



text \<open>
  What a state of the chunk builder holds: the characters other than white space, and
  the words, of the emitted chunks followed by the builder.
\<close>

definition content :: "string list \<times> string \<Rightarrow> string" where
  "content st = nonSpace (concat (fst st) @ snd st)"

definition wordsOf :: "string list \<times> string \<Rightarrow> string list" where
  "wordsOf st = concat (map Fields (fst st)) @ Fields (snd st)"

text \<open>
  The sentence terminators, and a text that contains the splitter's marker \<open>|SEP|\<close>
  itself.
\<close>

definition isTerminator :: "char \<Rightarrow> bool" where
  "isTerminator c = (c = CHR ''.'' \<or> c = CHR ''?'' \<or> c = CHR ''!'')"

fun hasMarker :: "string \<Rightarrow> bool" where
  "hasMarker [] = False"
| "hasMarker (c # cs) = (take 5 (c # cs) = ''|SEP|'' \<or> hasMarker cs)"

text \<open>
  What the three replacements do to one character, and the cut of a text after each
  of its terminators, which is what the splitter computes on a text without the
  marker.
\<close>

definition mark1 :: "char \<Rightarrow> string" where
  "mark1 c = (if isTerminator c then c # ''|SEP|'' else [c])"

fun cutAfter :: "string \<Rightarrow> string \<Rightarrow> string list" where
  "cutAfter cur [] = [cur]"
| "cutAfter cur (c # cs) =
     (if isTerminator c then (cur @ [c]) # cutAfter [] cs else cutAfter (cur @ [c]) cs)"

section \<open>The synthesis call and the parallel scheduler\<close>

text \<open>
  Go's \<open>error\<close> values: the program's own \<open>PodcastError\<close> (stage, message, wrapped
  error), an error of the standard library (kept as its text), and the error that
  \<open>generateTTSAudioParallel\<close> builds with \<open>fmt.Errorf("chunk %d: %w", index+1, err)\<close>.
\<close>

datatype goerr =
    PodcastError string string "goerr option"
  | LibraryError string
  | ChunkError nat goerr

text \<open>
  What the program does not decide itself: \<open>filepath.Join\<close> of the standard library,
  and the outcome of one synthesis request (the API key lookup, the HTTP exchange and
  the writing of the audio file that \<open>generateTTSAudio\<close> performs after its own check
  of the text), \<open>None\<close> for \<open>nil\<close>.
\<close>

record world =
  filepath_Join :: "string \<Rightarrow> string \<Rightarrow> string"
  ttsRequest :: "string \<Rightarrow> string \<Rightarrow> string \<Rightarrow> goerr option"

definition generateTTSAudio :: "world \<Rightarrow> string \<Rightarrow> string \<Rightarrow> string \<Rightarrow> goerr option" where
  "generateTTSAudio w textChunk voice outputFile =
     (if len (TrimSpace textChunk) = 0
      then Some (PodcastError ''audio generation'' ''Empty text chunk'' None)
      else ttsRequest w textChunk voice outputFile)"

text \<open>\<open>fmt.Sprintf("%d", n)\<close> for a natural number.\<close>

definition digit :: "nat \<Rightarrow> char" where
  "digit d = char_of (48 + d)"

function showNat :: "nat \<Rightarrow> string" where
  "showNat n = (if n < 10 then [digit n] else showNat (n div 10) @ [digit (n mod 10)])"
  by pat_completeness auto
termination
  by (relation "measure (\<lambda>n. n)") auto

declare showNat.simps [simp del]

definition chunkFile :: "world \<Rightarrow> string \<Rightarrow> nat \<Rightarrow> string" where
  "chunkFile w tmpDir index = filepath_Join w tmpDir (''chunk_'' @ showNat (index + 1) @ ''.mp3'')"

text \<open>
  The state the goroutines share: the result slice \<open>audioFiles\<close>, the buffered channel
  \<open>errors\<close> (its contents, oldest first), and the number of values sent on the channel
  \<open>progress\<close>. Both channels have room for one value per chunk, so no send blocks.
  \<open>calls\<close> is not in the program: it records the arguments of every call of
  \<open>generateTTSAudio\<close>, so that the properties can speak about which calls were made.
\<close>

record sched =
  audioFiles :: "string list"
  errors :: "goerr list"
  progress :: nat
  calls :: "(string \<times> string \<times> string) list"

text \<open>
  The body of the goroutine started for \<open>(index, text)\<close>, from the moment it holds a
  slot of the semaphore: the synthesis call, then either the send on \<open>errors\<close> or the
  write of its own slot of \<open>audioFiles\<close> and the send on \<open>progress\<close>.
\<close>

definition task :: "world \<Rightarrow> string \<Rightarrow> string \<Rightarrow> nat \<Rightarrow> string \<Rightarrow> sched \<Rightarrow> sched" where
  "task w voice tmpDir index text st =
     (let st = st\<lparr>calls := calls st @ [(text, voice, chunkFile w tmpDir index)]\<rparr>
      in case generateTTSAudio w text voice (chunkFile w tmpDir index) of
           Some err \<Rightarrow> st\<lparr>errors := errors st @ [ChunkError (index + 1) err]\<rparr>
         | None \<Rightarrow> st\<lparr>audioFiles := (audioFiles st)[index := chunkFile w tmpDir index],
                        progress := progress st + 1\<rparr>)"

text \<open>
  The goroutines touch the shared state only after their call has returned, each at
  its own slot or through a channel, so a run is determined by the order in which the
  calls complete. \<open>order\<close> is that order: a list of the indices \<open>0 .. len(chunks)-1\<close>,
  each once. \<open>runTasks\<close> is the shared state when \<open>wg.Wait()\<close> returns, that is when
  every goroutine has finished.
\<close>

definition runTasks :: "world \<Rightarrow> nat list \<Rightarrow> string list \<Rightarrow> string \<Rightarrow> string \<Rightarrow> sched" where
  "runTasks w order chunks voice tmpDir =
     foldl (\<lambda>st index. task w voice tmpDir index (chunks ! index) st)
       \<lparr>audioFiles = replicate (length chunks) [], errors = [], progress = 0, calls = []\<rparr>
       order"

text \<open>
  After the wait the function reads the channel \<open>errors\<close>: the first value it holds is
  returned with a \<open>nil\<close> slice (\<open>Inl\<close>), and \<open>audioFiles\<close> is returned when it holds none.
\<close>

definition generateTTSAudioParallel ::
  "world \<Rightarrow> nat list \<Rightarrow> string list \<Rightarrow> string \<Rightarrow> string \<Rightarrow> goerr + string list" where
  "generateTTSAudioParallel w order chunks voice tmpDir =
     (let st = runTasks w order chunks voice tmpDir
      in case errors st of
           err # _ \<Rightarrow> Inl err
         | [] \<Rightarrow> Inr (audioFiles st))"

text \<open>The outcome of the synthesis call that the goroutine of chunk \<open>i\<close> makes.\<close>

definition callOutcome :: "world \<Rightarrow> string list \<Rightarrow> string \<Rightarrow> string \<Rightarrow> nat \<Rightarrow> goerr option" where
  "callOutcome w chunks voice tmpDir i =
     generateTTSAudio w (chunks ! i) voice (chunkFile w tmpDir i)"

text \<open>A completion order of \<open>n\<close> tasks: every index below \<open>n\<close>, once.\<close>

definition completionOrder :: "nat \<Rightarrow> nat list \<Rightarrow> bool" where
  "completionOrder n order = (distinct order \<and> set order = set [0..<n])"


text \<open>The shared state after the tasks of \<open>order\<close> have completed from the state \<open>st\<close>.\<close>

abbreviation runFrom :: "world \<Rightarrow> string list \<Rightarrow> string \<Rightarrow> string \<Rightarrow> sched \<Rightarrow> nat list \<Rightarrow> sched" where
  "runFrom w chunks voice tmpDir st order \<equiv>
     foldl (\<lambda>st index. task w voice tmpDir index (chunks ! index) st) st order"

section \<open>The assembler\<close>






section \<open>Concrete worlds for the examples\<close>

text \<open>
  A world whose \<open>filepath.Join\<close> puts a slash between directory and name (what Go
  does for a clean directory path) and whose synthesis service rejects the text
  \<open>bad\<close> and accepts every other text.
\<close>

definition sampleWorld :: world where
  "sampleWorld = \<lparr>filepath_Join = (\<lambda>dir name. dir @ ''/'' @ name),
                  ttsRequest = (\<lambda>text voice file.
                     if text = ''bad'' then Some (LibraryError ''TTS request failed'') else None)\<rparr>"



section \<open>Lengths, loops, words and trimming\<close>


lemma len_append [simp]: "len (a @ b) = len a + len b"
  by (simp add: len_def)

lemma len_Nil [simp]: "len [] = 0"
  by (simp add: len_def)

lemma len_Cons [simp]: "len (c # s) = 1 + len s"
  by (simp add: len_def)

lemma len_pos_iff [simp]: "0 < len s \<longleftrightarrow> s \<noteq> []"
  by (simp add: len_def)

lemma len_nonneg [simp]: "0 \<le> len s"
  by (simp add: len_def)
subsection \<open>Words\<close>

lemma fieldsFrom_words:
  "\<forall>c\<in>set cur. \<not> isSpace c \<Longrightarrow> \<forall>w\<in>set (fieldsFrom cur s). w \<noteq> [] \<and> (\<forall>c\<in>set w. \<not> isSpace c)"
proof (induction s arbitrary: cur)
  case Nil
  then show ?case by simp
next
  case (Cons a s)
  show ?case
  proof (cases "isSpace a")
    case True
    have "\<forall>w\<in>set (fieldsFrom [] s). w \<noteq> [] \<and> (\<forall>c\<in>set w. \<not> isSpace c)"
      using Cons.IH [of "[]"] by simp
    with True Cons.prems show ?thesis by simp
  next
    case False
    have "\<forall>w\<in>set (fieldsFrom (cur @ [a]) s). w \<noteq> [] \<and> (\<forall>c\<in>set w. \<not> isSpace c)"
      using Cons.IH [of "cur @ [a]"] Cons.prems False by simp
    with False show ?thesis by simp
  qed
qed

lemma fieldsFrom_word:
  "\<forall>c\<in>set w. \<not> isSpace c \<Longrightarrow> fieldsFrom cur w = (if cur @ w = [] then [] else [cur @ w])"
  by (induction w arbitrary: cur) auto

lemma Fields_word: "w \<in> set (Fields s) \<Longrightarrow> Fields w = [w]"
  using fieldsFrom_words [of "[]" s] fieldsFrom_word [of w "[]"]
  by (auto simp add: Fields_def)
subsection \<open>Trimming\<close>

lemma dropWhile_hd_id: "xs = [] \<or> \<not> P (hd xs) \<Longrightarrow> dropWhile P xs = xs"
  by (cases xs) auto

lemma last_dropWhile_eq: "dropWhile P xs \<noteq> [] \<Longrightarrow> last (dropWhile P xs) = last xs"
proof -
  assume ne: "dropWhile P xs \<noteq> []"
  have "last xs = last (takeWhile P xs @ dropWhile P xs)" by simp
  also have "\<dots> = last (dropWhile P xs)" using ne by (rule last_appendR)
  finally show ?thesis by simp
qed

lemma TrimSpace_last: "TrimSpace s \<noteq> [] \<Longrightarrow> \<not> isSpace (last (TrimSpace s))"
proof -
  let ?u = "dropWhile isSpace (rev (dropWhile isSpace s))"
  assume "TrimSpace s \<noteq> []"
  then have ne: "?u \<noteq> []" by (simp add: TrimSpace_def)
  then have "last (TrimSpace s) = hd ?u" by (simp add: TrimSpace_def last_rev)
  with hd_dropWhile [OF ne] show ?thesis by simp
qed

lemma TrimSpace_hd: "TrimSpace s \<noteq> [] \<Longrightarrow> \<not> isSpace (hd (TrimSpace s))"
proof -
  let ?t = "dropWhile isSpace s"
  let ?u = "dropWhile isSpace (rev ?t)"
  assume "TrimSpace s \<noteq> []"
  then have ne: "?u \<noteq> []" by (simp add: TrimSpace_def)
  have t: "?t \<noteq> []"
  proof
    assume e: "?t = []"
    have "?u = []" unfolding e by simp
    with ne show False by contradiction
  qed
  have "hd (TrimSpace s) = last ?u" using ne by (simp add: TrimSpace_def hd_rev)
  also have "\<dots> = last (rev ?t)" using ne by (rule last_dropWhile_eq)
  also have "\<dots> = hd ?t" using t by (simp add: last_rev)
  finally show ?thesis using hd_dropWhile [OF t] by simp
qed

lemma TrimSpace_fix:
  assumes "t = [] \<or> (\<not> isSpace (hd t) \<and> \<not> isSpace (last t))"
  shows "TrimSpace t = t"
proof (cases "t = []")
  case True
  then show ?thesis by (simp add: TrimSpace_def)
next
  case False
  with assms have h: "\<not> isSpace (hd t)" and l: "\<not> isSpace (last t)" by auto
  have 1: "dropWhile isSpace t = t" using h by (simp add: dropWhile_hd_id)
  have "hd (rev t) = last t" using False by (simp add: hd_rev)
  then have 2: "dropWhile isSpace (rev t) = rev t" using l by (simp add: dropWhile_hd_id)
  show ?thesis by (simp add: TrimSpace_def 1 2)
qed

lemma TrimSpace_idem: "TrimSpace (TrimSpace s) = TrimSpace s"
  using TrimSpace_hd [of s] TrimSpace_last [of s] by (intro TrimSpace_fix) blast

lemma splitIntoSentences_trimmed: "s \<in> set (splitIntoSentences text) \<Longrightarrow> TrimSpace s = s"
  by (auto simp: splitIntoSentences_def TrimSpace_idem)
section \<open>Properties of the chunk builder\<close>

text \<open>
  C7. For the text \<open>Hello world. Hi.\<close> and \<open>maxSize = 10\<close> the chunk builder returns
  exactly the three chunks \<open>Hello\<close>, \<open>world.\<close> and \<open>Hi.\<close>: the first sentence has
  twelve characters and is packed word by word, the second fits as a chunk of its own.
\<close>

theorem splitTextIntoChunks_hello_example:
  "splitTextIntoChunks ''Hello world. Hi.'' 10 = [''Hello'', ''world.'', ''Hi.'']"
  by code_simp

subsection \<open>The size bound\<close>






subsection \<open>Empty chunks\<close>

text \<open>
  C5. The claim is that no returned chunk is the empty string. When the builder is
  empty and a sentence has exactly \<open>maxSize\<close> characters, the flush before a sentence
  that does not fit emits the empty builder: for the text \<open>abc.\<close> and \<open>maxSize = 4\<close>
  the first chunk is the empty string.
\<close>

theorem splitTextIntoChunks_emits_empty_chunk:
  "splitTextIntoChunks ''abc.'' 4 = ['''', ''abc.''] \<and> [] \<in> set (splitTextIntoChunks ''abc.'' 4)"
  by code_simp

text \<open>
  That flush is the only way to an empty chunk: when no sentence has exactly
  \<open>maxSize\<close> characters, no chunk is empty.
\<close>

lemma packWord_nonempty:
  "[] \<notin> set (fst st) \<Longrightarrow> [] \<notin> set (fst (packWord m st w))"
  by (cases st) (auto simp: packWord_def)

lemma packWords_nonempty:
  "[] \<notin> set (fst st) \<Longrightarrow> [] \<notin> set (fst (foldl (packWord m) st ws))"
  by (induction ws arbitrary: st) (simp_all add: packWord_nonempty)

lemma addSentence_nonempty:
  assumes "[] \<notin> set (fst st)" and "len (TrimSpace s) \<noteq> m"
  shows "[] \<notin> set (fst (addSentence m st s))"
proof (cases st)
  case (Pair chunks cur)
  let ?s = "TrimSpace s"
  show ?thesis
  proof (cases "?s \<noteq> [] \<and> len ?s > m")
    case True
    let ?cs = "if cur \<noteq> [] then chunks @ [cur] else chunks"
    let ?r = "foldl (packWord m) (?cs, []) (Fields ?s)"
    have eq: "addSentence m st s =
        ((if snd ?r \<noteq> [] then fst ?r @ [snd ?r] else fst ?r), (if cur \<noteq> [] then [] else cur))"
      using True Pair by (simp add: addSentence_def Let_def split_beta)
    have "[] \<notin> set (fst (?cs, []::string))" using assms(1) Pair by simp
    then have "[] \<notin> set (fst ?r)" by (rule packWords_nonempty)
    then show ?thesis unfolding eq by simp
  next
    case False
    then show ?thesis
      using assms Pair by (auto simp: addSentence_def Let_def)
  qed
qed

lemma addSentences_nonempty:
  "[] \<notin> set (fst st) \<Longrightarrow> \<forall>s\<in>set ss. len (TrimSpace s) \<noteq> m \<Longrightarrow>
   [] \<notin> set (fst (foldl (addSentence m) st ss))"
  by (induction ss arbitrary: st) (simp_all add: addSentence_nonempty)

lemma no_empty_chunk_without_exact_fit:
  assumes "\<forall>s\<in>set (splitIntoSentences text). len s \<noteq> maxSize"
  shows "[] \<notin> set (splitTextIntoChunks text maxSize)"
proof -
  let ?r = "foldl (addSentence maxSize) ([], []) (splitIntoSentences text)"
  have "\<forall>s\<in>set (splitIntoSentences text). len (TrimSpace s) \<noteq> maxSize"
    using assms by (simp add: splitIntoSentences_trimmed)
  then have "[] \<notin> set (fst ?r)"
    by (intro addSentences_nonempty) simp_all
  then show ?thesis
    by (simp add: splitTextIntoChunks_def Let_def split_beta)
qed


subsection \<open>Coverage\<close>

text \<open>
  C1. The claim is that the chunks hold every character of the text that is not white
  space, in order. A text that contains the marker \<open>|SEP|\<close> itself is split there and
  the marker is dropped: \<open>a|SEP|b\<close> gives the single chunk \<open>a b\<close>, whose characters
  other than white space are \<open>ab\<close>.
\<close>

theorem splitTextIntoChunks_loses_marker:
  "splitTextIntoChunks ''a|SEP|b'' 10 = [''a b''] \<and>
   nonSpace (concat (splitTextIntoChunks ''a|SEP|b'' 10)) = ''ab'' \<and>
   nonSpace ''a|SEP|b'' = ''a|SEP|b''"
  by code_simp

text \<open>
  The marker is the only way to lose a character. On a text without it the three
  replacements put the marker after each terminator and nowhere else, the split cuts
  exactly there, and neither trimming nor the chunk builder changes the characters
  other than white space.
\<close>

lemma ReplaceAll_single:
  "ReplaceAll s [c] new = concat (map (\<lambda>x. if x = c then new else [x]) s)"
  by (induction s) auto

lemma markSeparators_eq: "markSeparators text = concat (map mark1 text)"
proof -
  have "concat (map (\<lambda>x. if x = CHR ''!'' then ''!|SEP|'' else [x])
          (concat (map (\<lambda>x. if x = CHR ''?'' then ''?|SEP|'' else [x])
            (concat (map (\<lambda>x. if x = CHR ''.'' then ''.|SEP|'' else [x]) text)))))
        = concat (map mark1 text)"
    by (induction "text") (auto simp: mark1_def isTerminator_def)
  then show ?thesis
    by (simp add: markSeparators_def separators_def ReplaceAll_single)
qed

lemma take_mark:
  "\<forall>c\<in>set p. \<not> isTerminator c \<Longrightarrow> take (length p) (concat (map mark1 s)) = p \<Longrightarrow>
   take (length p) s = p"
proof (induction p arbitrary: s)
  case Nil
  then show ?case by simp
next
  case (Cons a p)
  show ?case
  proof (cases s)
    case Nil
    with Cons.prems show ?thesis by simp
  next
    case (Cons c s')
    with Cons.prems(2) have ca: "c = a" by (simp add: mark1_def split: if_splits)
    with Cons.prems(1) have nt: "\<not> isTerminator c" by simp
    then have "concat (map mark1 s) = c # concat (map mark1 s')"
      using Cons by (simp add: mark1_def)
    with Cons.prems(2) have "take (length p) (concat (map mark1 s')) = p"
      by simp
    with Cons.IH Cons.prems(1) have "take (length p) s' = p" by simp
    with ca Cons show ?thesis by simp
  qed
qed

lemma length_marker: "length ''|SEP|'' = 5"
  by simp

lemma marker_in_mark:
  assumes "take 5 (concat (map mark1 s)) = ''|SEP|''"
  shows "take 5 s = ''|SEP|''"
proof -
  have "take (length ''|SEP|'') (concat (map mark1 s)) = ''|SEP|''"
    using assms by (simp only: length_marker)
  then have "take (length ''|SEP|'') s = ''|SEP|''"
    by (rule take_mark [rotated]) (simp add: isTerminator_def)
  then show ?thesis by (simp only: length_marker)
qed

lemma splitFrom_skip:
  "take (length sep) (c # cs) \<noteq> sep \<Longrightarrow> splitFrom cur (c # cs) sep = splitFrom (cur @ [c]) cs sep"
  by simp

lemma splitFrom_cut:
  "sep \<noteq> [] \<Longrightarrow> splitFrom cur (sep @ cs) sep = cur # splitFrom [] cs sep"
  by (cases sep) simp_all

lemma splitFrom_mark:
  "\<not> hasMarker s \<Longrightarrow> splitFrom cur (concat (map mark1 s)) ''|SEP|'' = cutAfter cur s"
proof (induction s arbitrary: cur)
  case Nil
  then show ?case by simp
next
  case (Cons c s)
  from Cons.prems have nm: "take 5 (c # s) \<noteq> ''|SEP|''" and ns: "\<not> hasMarker s" by auto
  show ?case
  proof (cases "isTerminator c")
    case True
    then have c: "c \<noteq> CHR ''|''" by (auto simp: isTerminator_def)
    have m: "concat (map mark1 (c # s)) = c # ''|SEP|'' @ concat (map mark1 s)"
      using True by (simp add: mark1_def)
    have "take (length ''|SEP|'') (c # ''|SEP|'' @ concat (map mark1 s)) \<noteq> ''|SEP|''"
      using c by simp
    then have "splitFrom cur (concat (map mark1 (c # s))) ''|SEP|''
                 = splitFrom (cur @ [c]) (''|SEP|'' @ concat (map mark1 s)) ''|SEP|''"
      unfolding m by (rule splitFrom_skip)
    also have "\<dots> = (cur @ [c]) # splitFrom [] (concat (map mark1 s)) ''|SEP|''"
      by (rule splitFrom_cut) simp
    also have "\<dots> = cutAfter cur (c # s)"
      using True Cons.IH [OF ns] by simp
    finally show ?thesis .
  next
    case False
    have m: "concat (map mark1 (c # s)) = c # concat (map mark1 s)"
      using False by (simp add: mark1_def)
    have "take 5 (c # concat (map mark1 s)) \<noteq> ''|SEP|''"
      using marker_in_mark [of "c # s"] nm m by auto
    then have "take (length ''|SEP|'') (c # concat (map mark1 s)) \<noteq> ''|SEP|''"
      unfolding length_marker .
    then have "splitFrom cur (concat (map mark1 (c # s))) ''|SEP|''
                 = splitFrom (cur @ [c]) (concat (map mark1 s)) ''|SEP|''"
      unfolding m by (rule splitFrom_skip)
    also have "\<dots> = cutAfter cur (c # s)"
      using False Cons.IH [OF ns] by simp
    finally show ?thesis .
  qed
qed

lemma concat_cutAfter: "concat (cutAfter cur s) = cur @ s"
  by (induction s arbitrary: cur) auto

lemma nonSpace_append [simp]: "nonSpace (a @ b) = nonSpace a @ nonSpace b"
  by (simp add: nonSpace_def)

lemma nonSpace_Nil [simp]: "nonSpace [] = []"
  by (simp add: nonSpace_def)

lemma nonSpace_space [simp]: "nonSpace '' '' = []"
  by (simp add: nonSpace_def isSpace_def)

lemma nonSpace_dropWhile: "nonSpace (dropWhile isSpace s) = nonSpace s"
  by (induction s) (auto simp: nonSpace_def)

lemma nonSpace_rev: "nonSpace (rev s) = rev (nonSpace s)"
  by (simp add: nonSpace_def rev_filter)

lemma nonSpace_TrimSpace [simp]: "nonSpace (TrimSpace s) = nonSpace s"
proof -
  have "nonSpace (TrimSpace s) = rev (nonSpace (dropWhile isSpace (rev (dropWhile isSpace s))))"
    by (simp add: TrimSpace_def nonSpace_rev)
  also have "\<dots> = rev (nonSpace (rev (dropWhile isSpace s)))"
    by (simp only: nonSpace_dropWhile)
  also have "\<dots> = nonSpace (dropWhile isSpace s)"
    by (simp add: nonSpace_rev)
  finally show ?thesis by (simp only: nonSpace_dropWhile)
qed

lemma nonSpace_concat_TrimSpace:
  "nonSpace (concat (map TrimSpace ps)) = nonSpace (concat ps)"
  by (induction ps) simp_all

lemma nonSpace_fieldsFrom:
  "nonSpace (concat (fieldsFrom cur s)) = nonSpace cur @ nonSpace s"
  by (induction s arbitrary: cur) (auto simp: nonSpace_def)

lemma content_packWord: "content (packWord m st w) = content st @ nonSpace w"
  by (cases st) (simp add: content_def packWord_def)

lemma content_packWords:
  "content (foldl (packWord m) st ws) = content st @ nonSpace (concat ws)"
  by (induction ws arbitrary: st) (simp_all add: content_packWord)

lemma content_addSentence: "content (addSentence m st s) = content st @ nonSpace s"
proof (cases st)
  case (Pair chunks cur)
  let ?s = "TrimSpace s"
  show ?thesis
  proof (cases "?s \<noteq> [] \<and> len ?s > m")
    case True
    let ?cs = "if cur \<noteq> [] then chunks @ [cur] else chunks"
    let ?r = "foldl (packWord m) (?cs, []) (Fields ?s)"
    have eq: "addSentence m st s =
        ((if snd ?r \<noteq> [] then fst ?r @ [snd ?r] else fst ?r), (if cur \<noteq> [] then [] else cur))"
      using True Pair by (simp add: addSentence_def Let_def split_beta)
    have "content (addSentence m st s) = content ?r"
      unfolding eq by (simp add: content_def)
    also have "\<dots> = content (?cs, []) @ nonSpace (concat (Fields ?s))"
      by (rule content_packWords)
    also have "\<dots> = content st @ nonSpace s"
      using Pair by (simp add: content_def Fields_def nonSpace_fieldsFrom)
    finally show ?thesis .
  next
    case False
    have "nonSpace ?s = nonSpace s" by simp
    moreover have "?s = [] \<Longrightarrow> nonSpace s = []" using calculation by simp
    ultimately show ?thesis
      using False Pair by (auto simp: addSentence_def content_def Let_def)
  qed
qed

lemma content_addSentences:
  "content (foldl (addSentence m) st ss) = content st @ nonSpace (concat ss)"
  by (induction ss arbitrary: st) (simp_all add: content_addSentence)

lemma splitTextIntoChunks_content:
  "nonSpace (concat (splitTextIntoChunks text m)) = nonSpace (concat (splitIntoSentences text))"
proof -
  let ?r = "foldl (addSentence m) ([], []) (splitIntoSentences text)"
  have "nonSpace (concat (splitTextIntoChunks text m)) = content ?r"
    by (simp add: splitTextIntoChunks_def Let_def split_beta content_def)
  also have "\<dots> = content ([], []) @ nonSpace (concat (splitIntoSentences text))"
    by (rule content_addSentences)
  also have "\<dots> = nonSpace (concat (splitIntoSentences text))"
    by (simp add: content_def)
  finally show ?thesis .
qed

lemma splitIntoSentences_without_marker:
  "\<not> hasMarker text \<Longrightarrow> splitIntoSentences text = map TrimSpace (cutAfter [] text)"
  by (simp add: splitIntoSentences_def Split_def markSeparators_eq splitFrom_mark)

lemma coverage_without_marker:
  assumes "\<not> hasMarker text"
  shows "nonSpace (concat (splitTextIntoChunks text maxSize)) = nonSpace text"
  by (simp add: splitTextIntoChunks_content splitIntoSentences_without_marker [OF assms]
      nonSpace_concat_TrimSpace concat_cutAfter)


section \<open>Properties of the sentence splitter\<close>





text \<open>
  C8. The claim is that splitting the chunks, joined by spaces, gives as many segments
  as splitting the text. A text that contains the marker \<open>|SEP|\<close> is split there, and
  the chunks no longer hold the marker: \<open>One|SEP|two\<close> has two segments, its chunks
  joined have one.
\<close>

theorem splitIntoSentences_count_changes:
  "length (splitIntoSentences ''One|SEP|two'') = 2 \<and>
   joinSpace (splitTextIntoChunks ''One|SEP|two'' 2800) = ''One two'' \<and>
   length (splitIntoSentences (joinSpace (splitTextIntoChunks ''One|SEP|two'' 2800))) = 1"
  by code_simp

text \<open>
  On a text without the marker the count is kept. The chunk builder keeps the sequence
  of words; the marker holds no white space, so it would lie inside one word of the
  joined chunks, hence inside a sentence of the text; and the number of segments is one
  more than the number of terminators, which are not white space.
\<close>

lemma prefix_take: "prefix xs ys \<longleftrightarrow> take (length xs) ys = xs"
  by (metis append_eq_conv_conj prefix_def take_is_prefix)

lemma hasMarker_sublist: "hasMarker s \<longleftrightarrow> sublist ''|SEP|'' s"
proof (induction s)
  case Nil
  then show ?case by simp
next
  case (Cons c s)
  have "prefix ''|SEP|'' (c # s) \<longleftrightarrow> take 5 (c # s) = ''|SEP|''"
    unfolding prefix_take length_marker ..
  with Cons show ?case by (simp only: hasMarker.simps sublist_Cons_right)
qed

lemma sublist_across:
  assumes "c \<notin> set m" and "sublist m (a @ c # b)"
  shows "sublist m a \<or> sublist m b"
proof -
  from assms(2) consider "sublist m a" | "sublist m (c # b)"
    | m1 m2 where "m = m1 @ m2" "suffix m1 a" "prefix m2 (c # b)"
    unfolding sublist_append by blast
  then show ?thesis
  proof cases
    case 1
    then show ?thesis ..
  next
    case 2
    then have "prefix m (c # b) \<or> sublist m b" by (simp only: sublist_Cons_right)
    moreover have "prefix m (c # b) \<Longrightarrow> m = []"
      using assms(1) by (cases m) auto
    ultimately show ?thesis by auto
  next
    case 3
    have "m2 = []" using 3(1,3) assms(1) by (cases m2) auto
    with 3 show ?thesis by auto
  qed
qed

lemma marker_in_word:
  assumes "m \<noteq> []" and "\<forall>c\<in>set m. \<not> isSpace c"
  shows "sublist m (cur @ s) \<Longrightarrow> \<exists>w\<in>set (fieldsFrom cur s). sublist m w"
proof (induction s arbitrary: cur)
  case Nil
  with assms(1) have "cur \<noteq> []" by auto
  with Nil show ?case by simp
next
  case (Cons c s)
  show ?case
  proof (cases "isSpace c")
    case True
    with assms(2) have "c \<notin> set m" by auto
    from sublist_across [OF this Cons.prems] show ?thesis
    proof
      assume a: "sublist m cur"
      with assms(1) have "cur \<noteq> []" by auto
      with a True show ?thesis by simp
    next
      assume "sublist m s"
      then have "sublist m ([] @ s)" by simp
      from Cons.IH [OF this] True show ?thesis by auto
    qed
  next
    case False
    from Cons.prems have "sublist m ((cur @ [c]) @ s)" by simp
    from Cons.IH [OF this] False show ?thesis by simp
  qed
qed

lemma word_sublist: "w \<in> set (fieldsFrom cur s) \<Longrightarrow> sublist w (cur @ s)"
proof (induction s arbitrary: cur)
  case Nil
  then show ?case by (auto split: if_splits)
next
  case (Cons c s)
  show ?case
  proof (cases "isSpace c")
    case True
    with Cons.prems have "w = cur \<or> w \<in> set (fieldsFrom [] s)" by (auto split: if_splits)
    then show ?thesis
    proof
      assume "w = cur"
      then show ?thesis by simp
    next
      assume "w \<in> set (fieldsFrom [] s)"
      from Cons.IH [OF this] have "sublist w s" by simp
      then obtain p q where "s = p @ w @ q" by (auto simp: sublist_def)
      then have "cur @ c # s = (cur @ c # p) @ w @ q" by simp
      then show ?thesis unfolding sublist_def by blast
    qed
  next
    case False
    with Cons.prems have "w \<in> set (fieldsFrom (cur @ [c]) s)" by simp
    from Cons.IH [OF this] show ?thesis by simp
  qed
qed

lemma piece_sublist: "p \<in> set (cutAfter cur t) \<Longrightarrow> sublist p (cur @ t)"
proof (induction t arbitrary: cur)
  case Nil
  then show ?case by simp
next
  case (Cons c t)
  show ?case
  proof (cases "isTerminator c")
    case True
    with Cons.prems have "p = cur @ [c] \<or> p \<in> set (cutAfter [] t)" by simp
    then show ?thesis
    proof
      assume "p = cur @ [c]"
      then have "cur @ c # t = [] @ p @ t" by simp
      then show ?thesis unfolding sublist_def by blast
    next
      assume "p \<in> set (cutAfter [] t)"
      from Cons.IH [OF this] have "sublist p t" by simp
      then obtain a b where "t = a @ p @ b" by (auto simp: sublist_def)
      then have "cur @ c # t = (cur @ c # a) @ p @ b" by simp
      then show ?thesis unfolding sublist_def by blast
    qed
  next
    case False
    with Cons.prems have "p \<in> set (cutAfter (cur @ [c]) t)" by simp
    from Cons.IH [OF this] show ?thesis by simp
  qed
qed

lemma fieldsFrom_space:
  "isSpace c \<Longrightarrow> fieldsFrom cur (a @ c # b) = fieldsFrom cur a @ fieldsFrom [] b"
  by (induction a arbitrary: cur) auto

lemma Fields_space_append [simp]: "Fields (a @ CHR '' '' # b) = Fields a @ Fields b"
  using fieldsFrom_space [of "CHR '' ''" "[]" a b] by (simp add: Fields_def isSpace_def)

lemma nonSpace_space_Cons [simp]: "nonSpace (CHR '' '' # s) = nonSpace s"
  by (simp add: nonSpace_def isSpace_def)

lemma fieldsFrom_leading:
  "fieldsFrom [] (dropWhile isSpace s) = fieldsFrom [] s"
  by (induction s) auto

lemma fieldsFrom_trailing:
  "\<forall>c\<in>set sp. isSpace c \<Longrightarrow> fieldsFrom cur (a @ sp) = fieldsFrom cur a"
proof (induction a arbitrary: cur)
  case Nil
  then show ?case by (induction sp arbitrary: cur) auto
next
  case (Cons x a)
  then show ?case by simp
qed

lemma Fields_TrimSpace: "Fields (TrimSpace s) = Fields s"
proof -
  let ?t = "dropWhile isSpace s"
  have "TrimSpace s @ rev (takeWhile isSpace (rev ?t))
          = rev (takeWhile isSpace (rev ?t) @ dropWhile isSpace (rev ?t))"
    by (simp only: TrimSpace_def rev_append)
  also have "\<dots> = rev (rev ?t)" by (simp only: takeWhile_dropWhile_id)
  finally have t: "?t = TrimSpace s @ rev (takeWhile isSpace (rev ?t))" by simp
  have "\<forall>c\<in>set (rev (takeWhile isSpace (rev ?t))). isSpace c"
    by (auto dest: set_takeWhileD)
  then have "fieldsFrom [] (TrimSpace s @ rev (takeWhile isSpace (rev ?t))) = fieldsFrom [] (TrimSpace s)"
    by (rule fieldsFrom_trailing)
  with t have "fieldsFrom [] ?t = fieldsFrom [] (TrimSpace s)" by simp
  then show ?thesis by (simp add: Fields_def fieldsFrom_leading)
qed

lemma Fields_Nil [simp]: "Fields [] = []"
  by (simp add: Fields_def)

lemma wordsOf_packWord:
  "Fields w = [w] \<Longrightarrow> wordsOf (packWord m st w) = wordsOf st @ [w]"
  by (cases st) (auto simp: wordsOf_def packWord_def)

lemma wordsOf_packWords:
  "\<forall>w\<in>set ws. Fields w = [w] \<Longrightarrow> wordsOf (foldl (packWord m) st ws) = wordsOf st @ ws"
  by (induction ws arbitrary: st) (simp_all add: wordsOf_packWord)

lemma wordsOf_addSentence: "wordsOf (addSentence m st s) = wordsOf st @ Fields s"
proof (cases st)
  case (Pair chunks cur)
  let ?s = "TrimSpace s"
  show ?thesis
  proof (cases "?s \<noteq> [] \<and> len ?s > m")
    case True
    let ?cs = "if cur \<noteq> [] then chunks @ [cur] else chunks"
    let ?r = "foldl (packWord m) (?cs, []) (Fields ?s)"
    have eq: "addSentence m st s =
        ((if snd ?r \<noteq> [] then fst ?r @ [snd ?r] else fst ?r), (if cur \<noteq> [] then [] else cur))"
      using True Pair by (simp add: addSentence_def Let_def split_beta)
    have "wordsOf (addSentence m st s) = wordsOf ?r"
      unfolding eq by (simp add: wordsOf_def)
    also have "\<dots> = wordsOf (?cs, []) @ Fields ?s"
      by (rule wordsOf_packWords) (simp add: Fields_word)
    also have "\<dots> = wordsOf st @ Fields s"
      using Pair by (simp add: wordsOf_def Fields_TrimSpace)
    finally show ?thesis .
  next
    case False
    have "Fields ?s = Fields s" by (rule Fields_TrimSpace)
    moreover have "?s = [] \<Longrightarrow> Fields s = []" using calculation by simp
    ultimately show ?thesis
      using False Pair by (auto simp: addSentence_def wordsOf_def Let_def)
  qed
qed

lemma wordsOf_addSentences:
  "wordsOf (foldl (addSentence m) st ss) = wordsOf st @ concat (map Fields ss)"
  by (induction ss arbitrary: st) (simp_all add: wordsOf_addSentence)

lemma splitTextIntoChunks_words:
  "concat (map Fields (splitTextIntoChunks text m)) = concat (map Fields (splitIntoSentences text))"
proof -
  let ?r = "foldl (addSentence m) ([], []) (splitIntoSentences text)"
  have "concat (map Fields (splitTextIntoChunks text m)) = wordsOf ?r"
    by (simp add: splitTextIntoChunks_def Let_def split_beta wordsOf_def)
  also have "\<dots> = wordsOf ([], []) @ concat (map Fields (splitIntoSentences text))"
    by (rule wordsOf_addSentences)
  also have "\<dots> = concat (map Fields (splitIntoSentences text))"
    by (simp add: wordsOf_def)
  finally show ?thesis .
qed

lemma Fields_joinSpace: "Fields (joinSpace cs) = concat (map Fields cs)"
  by (induction cs rule: joinSpace.induct) simp_all

lemma nonSpace_joinSpace: "nonSpace (joinSpace cs) = nonSpace (concat cs)"
  by (induction cs rule: joinSpace.induct) simp_all

lemma joined_without_marker:
  assumes "\<not> hasMarker text"
  shows "\<not> hasMarker (joinSpace (splitTextIntoChunks text m))"
proof
  let ?J = "joinSpace (splitTextIntoChunks text m)"
  assume "hasMarker ?J"
  then have "sublist ''|SEP|'' ([] @ ?J)" by (simp add: hasMarker_sublist)
  then have "\<exists>w\<in>set (fieldsFrom [] ?J). sublist ''|SEP|'' w"
    by (rule marker_in_word [rotated 2]) (simp_all add: isSpace_def)
  then obtain w where w: "w \<in> set (Fields ?J)" and mw: "sublist ''|SEP|'' w"
    by (auto simp: Fields_def)
  from w have "w \<in> set (concat (map Fields (splitIntoSentences text)))"
    by (simp only: Fields_joinSpace splitTextIntoChunks_words)
  then obtain p where p: "p \<in> set (cutAfter [] text)" and wp: "w \<in> set (Fields p)"
    by (auto simp: splitIntoSentences_without_marker [OF assms] Fields_TrimSpace)
  from wp have "sublist w p" using word_sublist [of w "[]" p] by (simp add: Fields_def)
  moreover from p have "sublist p text" using piece_sublist [of p "[]" "text"] by simp
  ultimately have "sublist ''|SEP|'' text"
    using mw by (meson sublist_order.order_trans)
  with assms show False by (simp add: hasMarker_sublist)
qed

lemma length_cutAfter: "length (cutAfter cur s) = Suc (length (filter isTerminator s))"
  by (induction s arbitrary: cur) simp_all

lemma terminators_nonSpace: "filter isTerminator (nonSpace s) = filter isTerminator s"
  by (induction s) (auto simp: nonSpace_def isTerminator_def isSpace_def)

lemma segments_without_marker:
  assumes "\<not> hasMarker text"
  shows "length (splitIntoSentences (joinSpace (splitTextIntoChunks text maxSize)))
           = length (splitIntoSentences text)"
proof -
  let ?J = "joinSpace (splitTextIntoChunks text maxSize)"
  have "nonSpace ?J = nonSpace text"
    by (simp add: nonSpace_joinSpace coverage_without_marker [OF assms])
  then have "filter isTerminator ?J = filter isTerminator text"
    by (metis terminators_nonSpace)
  then show ?thesis
    by (simp add: splitIntoSentences_without_marker [OF assms]
        splitIntoSentences_without_marker [OF joined_without_marker [OF assms]] length_cutAfter)
qed


section \<open>Properties of the scheduler\<close>

lemma task_calls:
  "calls (task w voice tmpDir i text st) = calls st @ [(text, voice, chunkFile w tmpDir i)]"
  by (simp add: task_def Let_def split: option.split)

lemma task_errors:
  "errors (task w voice tmpDir i (chunks ! i) st) =
     errors st @ (case callOutcome w chunks voice tmpDir i of
                    None \<Rightarrow> [] | Some e \<Rightarrow> [ChunkError (i + 1) e])"
  by (simp add: task_def callOutcome_def Let_def split: option.split)

lemma task_audioFiles:
  "audioFiles (task w voice tmpDir i (chunks ! i) st) =
     (case callOutcome w chunks voice tmpDir i of
        None \<Rightarrow> (audioFiles st)[i := chunkFile w tmpDir i] | Some e \<Rightarrow> audioFiles st)"
  by (simp add: task_def callOutcome_def Let_def split: option.split)

lemma runFrom_calls:
  "calls (runFrom w chunks voice tmpDir st order) =
     calls st @ map (\<lambda>i. (chunks ! i, voice, chunkFile w tmpDir i)) order"
  by (induction order arbitrary: st) (simp_all add: task_calls)

lemma runFrom_errors_none:
  "\<forall>i\<in>set order. callOutcome w chunks voice tmpDir i = None \<Longrightarrow>
   errors (runFrom w chunks voice tmpDir st order) = errors st"
  by (induction order arbitrary: st) (simp_all add: task_errors)

lemma runFrom_errors_prefix:
  "\<exists>rest. errors (runFrom w chunks voice tmpDir st order) = errors st @ rest"
proof (induction order arbitrary: st)
  case Nil
  then show ?case by simp
next
  case (Cons i order)
  obtain rest where
    "errors (runFrom w chunks voice tmpDir (task w voice tmpDir i (chunks ! i) st) order)
       = errors (task w voice tmpDir i (chunks ! i) st) @ rest"
    using Cons.IH by blast
  then show ?case by (simp add: task_errors)
qed

lemma runFrom_first_error:
  assumes "find (\<lambda>i. callOutcome w chunks voice tmpDir i \<noteq> None) order = Some j"
  shows "\<exists>e rest. callOutcome w chunks voice tmpDir j = Some e \<and>
           errors (runFrom w chunks voice tmpDir st order) = errors st @ ChunkError (j + 1) e # rest"
  using assms
proof (induction order arbitrary: st)
  case Nil
  then show ?case by simp
next
  case (Cons i order)
  let ?st = "task w voice tmpDir i (chunks ! i) st"
  show ?case
  proof (cases "callOutcome w chunks voice tmpDir i")
    case None
    with Cons.prems have "find (\<lambda>i. callOutcome w chunks voice tmpDir i \<noteq> None) order = Some j"
      by simp
    from Cons.IH [OF this, of ?st] None show ?thesis
      by (simp add: task_errors)
  next
    case (Some e)
    with Cons.prems have j: "j = i" by simp
    obtain rest where "errors (runFrom w chunks voice tmpDir ?st order) = errors ?st @ rest"
      using runFrom_errors_prefix by blast
    with Some j show ?thesis by (simp add: task_errors)
  qed
qed

lemma runFrom_errors_empty:
  assumes "errors (runFrom w chunks voice tmpDir st order) = []" and "i \<in> set order"
  shows "callOutcome w chunks voice tmpDir i = None"
proof (rule ccontr)
  assume "callOutcome w chunks voice tmpDir i \<noteq> None"
  with assms(2) obtain j where "find (\<lambda>i. callOutcome w chunks voice tmpDir i \<noteq> None) order = Some j"
    by (cases "find (\<lambda>i. callOutcome w chunks voice tmpDir i \<noteq> None) order") (auto simp: find_None_iff)
  from runFrom_first_error [OF this, of st] assms(1) show False by auto
qed

lemma runFrom_length:
  "length (audioFiles (runFrom w chunks voice tmpDir st order)) = length (audioFiles st)"
  by (induction order arbitrary: st) (simp_all add: task_audioFiles split: option.split)

lemma runFrom_slot:
  "i < length (audioFiles st) \<Longrightarrow>
   audioFiles (runFrom w chunks voice tmpDir st order) ! i =
     (if i \<in> set order \<and> callOutcome w chunks voice tmpDir i = None
      then chunkFile w tmpDir i else audioFiles st ! i)"
proof (induction order arbitrary: st)
  case Nil
  then show ?case by simp
next
  case (Cons j order)
  let ?st = "task w voice tmpDir j (chunks ! j) st"
  have len: "i < length (audioFiles ?st)"
    using Cons.prems by (simp add: task_audioFiles split: option.split)
  have "audioFiles ?st ! i =
          (if i = j \<and> callOutcome w chunks voice tmpDir j = None
           then chunkFile w tmpDir i else audioFiles st ! i)"
    using Cons.prems by (simp add: task_audioFiles nth_list_update split: option.split)
  with Cons.IH [OF len] show ?case by auto
qed
text \<open>
  C2. For every completion order of the tasks: when \<open>generateTTSAudioParallel\<close>
  succeeds, the slice it returns has one element per chunk, and its element \<open>i\<close> is the
  path \<open>chunk_<i+1>.mp3\<close> in the temporary directory, the output file of the call that
  synthesised \<open>chunks[i]\<close>, which was made and returned \<open>nil\<close>.
\<close>

theorem generateTTSAudioParallel_result_order:
  assumes "completionOrder (length chunks) order"
    and "generateTTSAudioParallel w order chunks voice tmpDir = Inr files"
    and "i < length chunks"
  shows "length files = length chunks \<and>
         files ! i = chunkFile w tmpDir i \<and>
         generateTTSAudio w (chunks ! i) voice (files ! i) = None \<and>
         (chunks ! i, voice, files ! i) \<in> set (calls (runTasks w order chunks voice tmpDir))"
proof -
  let ?st = "runTasks w order chunks voice tmpDir"
  have i: "i \<in> set order" using assms(1,3) by (simp add: completionOrder_def)
  from assms(2) have err: "errors ?st = []" and files: "files = audioFiles ?st"
    by (auto simp: generateTTSAudioParallel_def Let_def split: list.splits)
  have out: "callOutcome w chunks voice tmpDir i = None"
    using err i unfolding runTasks_def by (rule runFrom_errors_empty)
  have 1: "length files = length chunks"
    by (simp add: files runTasks_def runFrom_length)
  have 2: "files ! i = chunkFile w tmpDir i"
    using assms(3) i out by (simp add: files runTasks_def runFrom_slot)
  have 3: "generateTTSAudio w (chunks ! i) voice (files ! i) = None"
    using out by (simp add: 2 callOutcome_def)
  have 4: "(chunks ! i, voice, files ! i) \<in> set (calls ?st)"
    using i by (auto simp: 2 runTasks_def runFrom_calls)
  from 1 2 3 4 show ?thesis by blast
qed

theorem generateTTSAudioParallel_result_order_witness:
  "completionOrder (length [''one'', ''two'', ''three'']) [2, 0, 1] \<and>
   generateTTSAudioParallel sampleWorld [2, 0, 1] [''one'', ''two'', ''three''] ''alloy'' ''tmp''
     = Inr [''tmp/chunk_1.mp3'', ''tmp/chunk_2.mp3'', ''tmp/chunk_3.mp3''] \<and>
   [''tmp/chunk_1.mp3'', ''tmp/chunk_2.mp3'', ''tmp/chunk_3.mp3''] ! 1 = chunkFile sampleWorld ''tmp'' 1 \<and>
   (''two'', ''alloy'', ''tmp/chunk_2.mp3'')
     \<in> set (calls (runTasks sampleWorld [2, 0, 1] [''one'', ''two'', ''three''] ''alloy'' ''tmp''))"
proof -
  have h1: "completionOrder (length [''one'', ''two'', ''three'']) [2, 0, 1]" by code_simp
  have h2: "generateTTSAudioParallel sampleWorld [2, 0, 1] [''one'', ''two'', ''three''] ''alloy'' ''tmp''
     = Inr [''tmp/chunk_1.mp3'', ''tmp/chunk_2.mp3'', ''tmp/chunk_3.mp3'']" by code_simp
  have h3: "1 < length [''one'', ''two'', ''three'']" by simp
  note t = generateTTSAudioParallel_result_order [OF h1 h2 h3]
  from t have a: "[''tmp/chunk_1.mp3'', ''tmp/chunk_2.mp3'', ''tmp/chunk_3.mp3''] ! 1
                    = chunkFile sampleWorld ''tmp'' 1"
    by blast
  from t have "([''one'', ''two'', ''three''] ! 1, ''alloy'',
                [''tmp/chunk_1.mp3'', ''tmp/chunk_2.mp3'', ''tmp/chunk_3.mp3''] ! 1)
     \<in> set (calls (runTasks sampleWorld [2, 0, 1] [''one'', ''two'', ''three''] ''alloy'' ''tmp''))"
    by blast
  then have b: "(''two'', ''alloy'', ''tmp/chunk_2.mp3'')
     \<in> set (calls (runTasks sampleWorld [2, 0, 1] [''one'', ''two'', ''three''] ''alloy'' ''tmp''))"
    by simp
  from h1 h2 a b show ?thesis by blast
qed



section \<open>Properties of the assembler\<close>




end
